theory Spec2Isabelle
  imports Main "HOL-Library.Sublist"
begin

section \<open>The document tree\<close>

text \<open>
  The entry point works on the browser's document. A DOM node is either an element, with
  a tag name, an attribute list and child nodes, or a text node. The document is the list of
  the Document node's children. A reference to a node (what \<^verbatim>\<open>querySelector\<close> hands
  back and what \<^verbatim>\<open>app\<close> holds) is the path of child indices leading to it from the
  document: a tree has no sharing, so a path identifies exactly one node.
\<close>

datatype node =
    Element string "(string \<times> string) list" "node list"
  | Text string

type_synonym document = "node list"

type_synonym path = "nat list"

datatype selector = Id_selector string

datatype error = TypeError | Stale_reference

text \<open>The \<^verbatim>\<open>id\<close> of a node: the value of its first \<^verbatim>\<open>id\<close> attribute, if any.\<close>

fun node_id :: "node \<Rightarrow> string option" where
  "node_id (Element tg as cs) = map_of as ''id''"
| "node_id (Text t) = None"

fun matches :: "selector \<Rightarrow> node \<Rightarrow> bool" where
  "matches (Id_selector i) n = (node_id n = Some i)"

text \<open>
  \<open>sub_at p n\<close> follows the path \<open>p\<close> downwards from the node \<open>n\<close>;
  \<open>node_at p doc\<close> follows it from the document.
\<close>

fun sub_at :: "path \<Rightarrow> node \<Rightarrow> node option" where
  "sub_at [] n = Some n"
| "sub_at (k # p) (Element tg as cs) = (if k < length cs then sub_at p (cs ! k) else None)"
| "sub_at (k # p) (Text t) = None"

fun node_at :: "path \<Rightarrow> document \<Rightarrow> node option" where
  "node_at [] doc = None"
| "node_at (k # p) doc = (if k < length doc then sub_at p (doc ! k) else None)"

text \<open>All nodes below a node, and of a document, in document order (pre-order).\<close>

fun nodes_of :: "node \<Rightarrow> node list"
and nodes_of_list :: "node list \<Rightarrow> node list" where
  "nodes_of (Text t) = [Text t]"
| "nodes_of (Element tg as cs) = Element tg as cs # nodes_of_list cs"
| "nodes_of_list [] = []"
| "nodes_of_list (n # ns) = nodes_of n @ nodes_of_list ns"

text \<open>Document order on paths: an ancestor comes before its descendants, an earlier
  sibling's subtree before a later sibling's.\<close>

fun precedes :: "path \<Rightarrow> path \<Rightarrow> bool" where
  "precedes [] [] = False"
| "precedes [] (j # q) = True"
| "precedes (k # p) [] = False"
| "precedes (k # p) (j # q) = (k < j \<or> (k = j \<and> precedes p q))"

section \<open>The platform calls the entry point makes\<close>

subsection \<open>\<^verbatim>\<open>document.querySelector\<close>\<close>

text \<open>
  \<^verbatim>\<open>querySelector\<close> returns the first element, in document order, that matches the
  selector, or \<^verbatim>\<open>null\<close>. The only selector the source uses is the ID selector
  \<^verbatim>\<open>'#app'\<close>, so selectors are ID selectors here. \<open>query_node\<close> searches a node and its
  descendants and answers with a path relative to that node, \<open>query_nodes\<close> searches a list
  of siblings from left to right.
\<close>

fun shift :: "path \<Rightarrow> path" where
  "shift [] = []"
| "shift (k # p) = Suc k # p"

fun query_node :: "selector \<Rightarrow> node \<Rightarrow> path option"
and query_nodes :: "selector \<Rightarrow> node list \<Rightarrow> path option" where
  "query_node sel (Text t) = None"
| "query_node sel (Element tg as cs) =
     (if matches sel (Element tg as cs) then Some [] else query_nodes sel cs)"
| "query_nodes sel [] = None"
| "query_nodes sel (n # ns) =
     (case query_node sel n of
        Some p \<Rightarrow> Some (0 # p)
      | None \<Rightarrow> map_option shift (query_nodes sel ns))"

definition querySelector :: "selector \<Rightarrow> document \<Rightarrow> path option" where
  "querySelector sel doc = query_nodes sel doc"

subsection \<open>The \<^verbatim>\<open>innerHTML\<close> setter\<close>

text \<open>
  Assigning to \<^verbatim>\<open>innerHTML\<close> parses the string as an HTML fragment in the context
  of the element assigned to, and replaces the children of that element with the parsed
  nodes. The parser below is the one for the content of a \<^verbatim>\<open>div\<close>, the element the
  source declares the mount to be (\<^verbatim>\<open>HTMLDivElement\<close>). It covers the markup the
  template consists of: start tags with double-quoted attributes, end tags and character
  data, white space included. An end tag closes the open elements up to the nearest one
  of its name and is dropped when there is none; elements still open at the end are closed
  there. Character references, comments and void elements are outside this subset.
\<close>

datatype token =
    StartTag string "(string \<times> string) list"
  | EndTag string
  | Character string

definition is_space :: "char \<Rightarrow> bool" where
  "is_space c \<longleftrightarrow>
     c = CHR '' '' \<or> c = CHR ''\<newline>'' \<or> c = CHR 0x09 \<or> c = CHR 0x0C \<or> c = CHR 0x0D"

function parse_attributes :: "string \<Rightarrow> (string \<times> string) list" where
  "parse_attributes s =
     (let s1 = dropWhile is_space s in
      if s1 = [] then []
      else
        let name = takeWhile (\<lambda>c. c \<noteq> CHR ''='' \<and> \<not> is_space c) s1;
            s2 = dropWhile (\<lambda>c. c \<noteq> CHR ''='' \<and> \<not> is_space c) s1
        in if take 2 s2 = [CHR ''='', CHR 0x22]
           then (name, takeWhile (\<lambda>c. c \<noteq> CHR 0x22) (drop 2 s2))
                  # parse_attributes (drop 1 (dropWhile (\<lambda>c. c \<noteq> CHR 0x22) (drop 2 s2)))
           else (name, []) # parse_attributes (drop 1 s2))"
  by pat_completeness auto
termination
proof (relation "measure length", goal_cases)
  case 1 show ?case by simp
next
  case (2 s s1 name s2)
  from 2 have e1: "s1 = dropWhile is_space s" by blast
  from 2 have e2: "s2 = dropWhile (\<lambda>c. c \<noteq> CHR ''='' \<and> \<not> is_space c) s1" by blast
  from 2 have t: "take 2 s2 = [CHR ''='', CHR 0x22]" by blast
  have a: "length s2 \<le> length s1" unfolding e2 by (rule length_dropWhile_le)
  have b: "length s1 \<le> length s" unfolding e1 by (rule length_dropWhile_le)
  have c: "s2 \<noteq> []" using t by auto
  have "length (dropWhile (\<lambda>c. c \<noteq> CHR 0x22) (drop 2 s2)) \<le> length (drop 2 s2)"
    by (rule length_dropWhile_le)
  with a b c show ?case by (cases s2) auto
next
  case (3 s s1 name s2)
  from 3 have e1: "s1 = dropWhile is_space s" by blast
  from 3 have e2: "s2 = dropWhile (\<lambda>c. c \<noteq> CHR ''='' \<and> \<not> is_space c) s1" by blast
  from 3 have c: "s1 \<noteq> []" by blast
  have a: "length s2 \<le> length s1" unfolding e2 by (rule length_dropWhile_le)
  have b: "length s1 \<le> length s" unfolding e1 by (rule length_dropWhile_le)
  show ?case
  proof (cases "s2 = []")
    case True
    with b c show ?thesis by (cases s1) auto
  next
    case False
    with a b show ?thesis by (cases s2) auto
  qed
qed

definition tag_token :: "string \<Rightarrow> token" where
  "tag_token s =
     (case s of
        CHR ''/'' # n \<Rightarrow> EndTag (takeWhile (\<lambda>c. \<not> is_space c) n)
      | _ \<Rightarrow> StartTag (takeWhile (\<lambda>c. \<not> is_space c) s)
                      (parse_attributes (dropWhile (\<lambda>c. \<not> is_space c) s)))"

function tokenize :: "string \<Rightarrow> token list" where
  "tokenize [] = []"
| "tokenize (c # cs) =
     (if c = CHR ''<''
      then tag_token (takeWhile (\<lambda>x. x \<noteq> CHR ''>'') cs)
             # tokenize (drop 1 (dropWhile (\<lambda>x. x \<noteq> CHR ''>'') cs))
      else Character (c # takeWhile (\<lambda>x. x \<noteq> CHR ''<'') cs)
             # tokenize (dropWhile (\<lambda>x. x \<noteq> CHR ''<'') cs))"
  by pat_completeness auto
termination
proof (relation "measure length", goal_cases)
  case 1 show ?case by simp
next
  case (2 c cs)
  have "length (dropWhile (\<lambda>x. x \<noteq> CHR ''>'') cs) \<le> length cs"
    by (rule length_dropWhile_le)
  then show ?case by simp
next
  case (3 c cs)
  have "length (dropWhile (\<lambda>x. x \<noteq> CHR ''<'') cs) \<le> length cs"
    by (rule length_dropWhile_le)
  then show ?case by simp
qed

type_synonym frame = "string \<times> (string \<times> string) list \<times> node list"

fun append_node :: "node \<Rightarrow> frame list \<times> node list \<Rightarrow> frame list \<times> node list" where
  "append_node n ([], roots) = ([], n # roots)"
| "append_node n ((tg, as, cs) # st, roots) = ((tg, as, n # cs) # st, roots)"

fun pop_frame :: "frame list \<times> node list \<Rightarrow> frame list \<times> node list" where
  "pop_frame ([], roots) = ([], roots)"
| "pop_frame ((tg, as, cs) # st, roots) = append_node (Element tg as (rev cs)) (st, roots)"

function close_until :: "string \<Rightarrow> frame list \<times> node list \<Rightarrow> frame list \<times> node list" where
  "close_until tg ([], roots) = ([], roots)"
| "close_until tg (f # st, roots) =
     (if fst f = tg then pop_frame (f # st, roots) else close_until tg (pop_frame (f # st, roots)))"
  by pat_completeness auto
termination
proof (relation "measure (\<lambda>(tg, s). length (fst s))", goal_cases)
  case 1 show ?case by simp
next
  case (2 tg f st roots)
  obtain t a c where f: "f = (t, a, c)" by (cases f)
  show ?case unfolding f
    by (cases "(Element t a (rev c), (st, roots))" rule: append_node.cases) auto
qed

function close_all :: "frame list \<times> node list \<Rightarrow> node list" where
  "close_all ([], roots) = rev roots"
| "close_all (f # st, roots) = close_all (pop_frame (f # st, roots))"
  by pat_completeness auto
termination
proof (relation "measure (\<lambda>s. length (fst s))", goal_cases)
  case 1 show ?case by simp
next
  case (2 f st roots)
  obtain t a c where f: "f = (t, a, c)" by (cases f)
  show ?case unfolding f
    by (cases "(Element t a (rev c), (st, roots))" rule: append_node.cases) auto
qed

fun build :: "token list \<Rightarrow> frame list \<times> node list \<Rightarrow> node list" where
  "build [] s = close_all s"
| "build (StartTag tg as # ts) s = build ts ((tg, as, []) # fst s, snd s)"
| "build (EndTag tg # ts) s = build ts (if tg \<in> set (map fst (fst s)) then close_until tg s else s)"
| "build (Character t # ts) s = build ts (append_node (Text t) s)"

definition parse_fragment :: "string \<Rightarrow> node list" where
  "parse_fragment s = build (tokenize s) ([], [])"

text \<open>
  \<open>replace_in p new n\<close> replaces the children of the element reached from \<open>n\<close> by \<open>p\<close>;
  \<open>replace_children\<close> does so from the document. Both answer \<open>None\<close> when the path
  leads to no element.
\<close>

fun replace_in :: "path \<Rightarrow> node list \<Rightarrow> node \<Rightarrow> node option" where
  "replace_in p new (Text t) = None"
| "replace_in [] new (Element tg as cs) = Some (Element tg as new)"
| "replace_in (k # p) new (Element tg as cs) =
     (if k < length cs
      then map_option (\<lambda>n'. Element tg as (cs[k := n'])) (replace_in p new (cs ! k))
      else None)"

fun replace_children :: "path \<Rightarrow> node list \<Rightarrow> document \<Rightarrow> document option" where
  "replace_children [] new doc = None"
| "replace_children (k # p) new doc =
     (if k < length doc
      then map_option (\<lambda>n'. doc[k := n']) (replace_in p new (doc ! k))
      else None)"

text \<open>
  What the parser does depends on the element the fragment is parsed for:
  \<^item> in a \<^verbatim>\<open>div\<close> the markup is parsed as above;
  \<^item> in an element whose content is text only (\<^verbatim>\<open>textarea\<close>, \<^verbatim>\<open>title\<close>,
    \<^verbatim>\<open>script\<close>, \<^verbatim>\<open>style\<close> and the like) no tag is recognised, and the whole
    string becomes one text node;
  \<^item> a \<^verbatim>\<open>template\<close> element receives the nodes in its separate content fragment,
    which is no part of the document tree: its children stay as they are;
  \<^item> for every other element (\<^verbatim>\<open>select\<close>, the parts of a table, \<^verbatim>\<open>html\<close>,
    elements of other kinds) the tree is not worked out here. \<open>other_fragment\<close> stands
    for it: nothing is known of it but that the element's tag, its attributes and the
    markup determine it.
\<close>

datatype parsing_context = Flow_content | Text_only | Template_contents | Not_modelled

definition text_only_tags :: "string list" where
  "text_only_tags =
     [''title'', ''textarea'', ''style'', ''xmp'', ''iframe'', ''noembed'', ''noframes'',
      ''script'', ''plaintext'']"

definition fragment_context :: "string \<Rightarrow> parsing_context" where
  "fragment_context tg =
     (if tg = ''div'' then Flow_content
      else if tg \<in> set text_only_tags then Text_only
      else if tg = ''template'' then Template_contents
      else Not_modelled)"

definition other_fragment :: "string \<Rightarrow> (string \<times> string) list \<Rightarrow> string \<Rightarrow> node list" where
  "other_fragment tg as s = undefined tg as s"

text \<open>The children an element has after \<open>s\<close> has been assigned to its \<^verbatim>\<open>innerHTML\<close>.\<close>

fun innerHTML_nodes :: "node \<Rightarrow> string \<Rightarrow> node list" where
  "innerHTML_nodes (Element tg as cs) s =
     (case fragment_context tg of
        Flow_content \<Rightarrow> parse_fragment s
      | Text_only \<Rightarrow> (if s = [] then [] else [Text s])
      | Template_contents \<Rightarrow> cs
      | Not_modelled \<Rightarrow> other_fragment tg as s)"
| "innerHTML_nodes (Text t) s = []"

text \<open>
  The assignment \<^verbatim>\<open>app.innerHTML = s\<close> on a possibly-null reference: on
  \<^verbatim>\<open>null\<close> JavaScript raises a \<^verbatim>\<open>TypeError\<close>. A path that leads to no element has no
  counterpart in the browser, where a reference cannot dangle; it is reported as
  \<open>Stale_reference\<close>.
\<close>

fun set_innerHTML :: "path option \<Rightarrow> string \<Rightarrow> document \<Rightarrow> error + document" where
  "set_innerHTML None s doc = Inl TypeError"
| "set_innerHTML (Some p) s doc =
     (case node_at p doc of
        Some (Element tg as cs) \<Rightarrow>
          (case replace_children p (innerHTML_nodes (Element tg as cs) s) doc of
             None \<Rightarrow> Inl Stale_reference
           | Some doc' \<Rightarrow> Inr doc')
      | _ \<Rightarrow> Inl Stale_reference)"

section \<open>The entry point\<close>

text \<open>
  \<^verbatim>\<open>
  const app = document.querySelector<HTMLDivElement>('#app');
  if (app) {
    app.innerHTML = `
      <header> ... </header>
      <main> ... </main>
    `;
  }
  \<close>
  The stylesheet import that precedes these lines has no effect on the document tree.
\<close>

definition template :: string where
  \<open>template = ''\<newline>    <header>\<newline>      <h1>Poland in Numbers</h1>\<newline>      <p>D3.js Data Visualization App</p>\<newline>    </header>\<newline>    <main>\<newline>      <div id="visualizations"></div>\<newline>    </main>\<newline>  ''\<close>

definition main :: "document \<Rightarrow> error + document" where
  "main doc =
     (let app = querySelector (Id_selector ''app'') doc
      in if app \<noteq> None then set_innerHTML app template doc else Inr doc)"

text \<open>A document has a mount element when some node of it matches \<^verbatim>\<open>#app\<close>.\<close>

definition has_mount :: "document \<Rightarrow> bool" where
  "has_mount doc = list_ex (matches (Id_selector ''app'')) (nodes_of_list doc)"

text \<open>The mount element itself: the first node of the document, in document order, that
  matches \<^verbatim>\<open>#app\<close>.\<close>

definition mount :: "document \<Rightarrow> node option" where
  "mount doc = find (matches (Id_selector ''app'')) (nodes_of_list doc)"

text \<open>The element children of a node list (the DOM's \<^verbatim>\<open>children\<close>), text nodes left out.\<close>

fun is_element :: "node \<Rightarrow> bool" where
  "is_element (Element tg as cs) = True"
| "is_element (Text t) = False"

fun childNodes :: "node \<Rightarrow> node list" where
  "childNodes (Element tg as cs) = cs"
| "childNodes (Text t) = []"

definition children :: "node list \<Rightarrow> node list" where
  "children ns = filter is_element ns"

text \<open>
  What a node is by itself, its children left out: the tag name and attributes of an
  element, the data of a text node.
\<close>

fun own_part :: "node \<Rightarrow> node" where
  "own_part (Element tg as cs) = Element tg as []"
| "own_part (Text t) = Text t"

text \<open>
  Where a path lies relative to the mount element of a document: at or below it, or at or
  above it. Without a mount element no path is either.
\<close>

definition in_mount :: "document \<Rightarrow> path \<Rightarrow> bool" where
  "in_mount doc q =
     (case querySelector (Id_selector ''app'') doc of
        None \<Rightarrow> False
      | Some p \<Rightarrow> prefix p q)"

definition around_mount :: "document \<Rightarrow> path \<Rightarrow> bool" where
  "around_mount doc q =
     (case querySelector (Id_selector ''app'') doc of
        None \<Rightarrow> False
      | Some p \<Rightarrow> prefix q p)"

section \<open>The build and test configuration\<close>

text \<open>\<^verbatim>\<open>vite.config.ts\<close>: the object literal handed to \<^verbatim>\<open>defineConfig\<close>, which returns its
  argument.\<close>

record thresholds =
  lines :: nat
  functions_cov :: nat
  branches :: nat
  statements :: nat

record coverage =
  provider :: string
  reporter :: "string list"
  exclude :: "string list"
  thresholds :: thresholds

record test_options =
  environment :: string
  coverage :: coverage

record user_config =
  test :: test_options

definition defineConfig :: "user_config \<Rightarrow> user_config" where
  "defineConfig config = config"

definition vite_config :: user_config where
  "vite_config = defineConfig
     \<lparr>test =
        \<lparr>environment = ''jsdom'',
         coverage =
           \<lparr>provider = ''v8'',
            reporter = [''text'', ''json'', ''html''],
            exclude = [''node_modules/'', ''tests/'', ''**/*.d.ts'', ''**/*.config.*''],
            thresholds = \<lparr>lines = 80, functions_cov = 80, branches = 80, statements = 80\<rparr>\<rparr>\<rparr>\<rparr>"

text \<open>The tree the template parses to, written out.\<close>

definition template_nodes :: "node list" where
  "template_nodes =
     [Text ''\<newline>    '',
      Element ''header'' []
        [Text ''\<newline>      '',
         Element ''h1'' [] [Text ''Poland in Numbers''],
         Text ''\<newline>      '',
         Element ''p'' [] [Text ''D3.js Data Visualization App''],
         Text ''\<newline>    ''],
      Text ''\<newline>    '',
      Element ''main'' []
        [Text ''\<newline>      '',
         Element ''div'' [(''id'', ''visualizations'')] [],
         Text ''\<newline>    ''],
      Text ''\<newline>  '']"

section \<open>The parsed template\<close>

lemma parse_template: "parse_fragment template = template_nodes"
  by code_simp

section \<open>Searching and replacing in the tree\<close>

lemma query_nodes_Some_iff:
  "query_nodes sel ns = Some q \<longleftrightarrow>
     (\<exists>k p. q = k # p \<and> k < length ns \<and> query_node sel (ns ! k) = Some p \<and>
            (\<forall>j<k. query_node sel (ns ! j) = None))"
proof (induction ns arbitrary: q)
  case Nil
  show ?case by simp
next
  case (Cons n ns)
  show ?case
  proof (cases "query_node sel n")
    case (Some p0)
    show ?thesis
    proof
      assume "query_nodes sel (n # ns) = Some q"
      with Some have "q = 0 # p0" by simp
      with Some show "\<exists>k p. q = k # p \<and> k < length (n # ns) \<and>
          query_node sel ((n # ns) ! k) = Some p \<and> (\<forall>j<k. query_node sel ((n # ns) ! j) = None)"
        by simp
    next
      assume "\<exists>k p. q = k # p \<and> k < length (n # ns) \<and>
          query_node sel ((n # ns) ! k) = Some p \<and> (\<forall>j<k. query_node sel ((n # ns) ! j) = None)"
      then obtain k p where kp: "q = k # p" "k < length (n # ns)"
          "query_node sel ((n # ns) ! k) = Some p" "\<forall>j<k. query_node sel ((n # ns) ! j) = None" by blast
      have "k = 0"
      proof (rule ccontr)
        assume "k \<noteq> 0"
        then have "query_node sel ((n # ns) ! 0) = None" using kp(4) by blast
        with Some show False by simp
      qed
      with kp Some show "query_nodes sel (n # ns) = Some q" by simp
    qed
  next
    case None
    show ?thesis
    proof
      assume "query_nodes sel (n # ns) = Some q"
      with None obtain q' where q': "query_nodes sel ns = Some q'" "q = shift q'" by auto
      from q'(1) Cons.IH obtain k p where
        "q' = k # p" "k < length ns" "query_node sel (ns ! k) = Some p"
        "\<forall>j<k. query_node sel (ns ! j) = None" by blast
      with None q'(2) show "\<exists>k p. q = k # p \<and> k < length (n # ns) \<and>
          query_node sel ((n # ns) ! k) = Some p \<and> (\<forall>j<k. query_node sel ((n # ns) ! j) = None)"
        by (auto simp: nth_Cons split: nat.splits)
    next
      assume "\<exists>k p. q = k # p \<and> k < length (n # ns) \<and>
          query_node sel ((n # ns) ! k) = Some p \<and> (\<forall>j<k. query_node sel ((n # ns) ! j) = None)"
      then obtain k p where kp: "q = k # p" "k < length (n # ns)"
          "query_node sel ((n # ns) ! k) = Some p" "\<forall>j<k. query_node sel ((n # ns) ! j) = None" by blast
      from kp(3) None obtain k' where k': "k = Suc k'" by (cases k) auto
      have "query_nodes sel ns = Some (k' # p)"
        unfolding Cons.IH using kp k' by auto
      with None kp(1) k' show "query_nodes sel (n # ns) = Some q" by simp
    qed
  qed
qed

lemma query_nodes_None_iff:
  "query_nodes sel ns = None \<longleftrightarrow> (\<forall>k<length ns. query_node sel (ns ! k) = None)"
  by (induction ns) (auto simp: nth_Cons split: option.splits nat.splits)

lemma matches_Text [simp]: "\<not> matches sel (Text t)"
  by (cases sel) simp

lemma query_node_Nil_iff: "query_node sel n = Some [] \<longleftrightarrow> matches sel n"
  by (cases n) (auto simp: query_nodes_Some_iff)

lemma query_node_Cons_iff:
  "query_node sel n = Some (k # p) \<longleftrightarrow>
     (\<exists>tg as cs. n = Element tg as cs \<and> \<not> matches sel n \<and> k < length cs \<and>
        query_node sel (cs ! k) = Some p \<and> (\<forall>j<k. query_node sel (cs ! j) = None))"
  by (cases n) (auto simp: query_nodes_Some_iff)

lemma query_node_sound:
  "query_node sel n = Some p \<Longrightarrow> \<exists>m. sub_at p n = Some m \<and> matches sel m"
proof (induction p arbitrary: n)
  case Nil
  then show ?case by (simp add: query_node_Nil_iff)
next
  case (Cons k p)
  from Cons.prems obtain tg as cs where n: "n = Element tg as cs" "k < length cs"
      "query_node sel (cs ! k) = Some p" unfolding query_node_Cons_iff by blast
  from Cons.IH [OF n(3)] n(1,2) show ?case by simp
qed

lemma querySelector_sound:
  "querySelector sel doc = Some p \<Longrightarrow> \<exists>m. node_at p doc = Some m \<and> matches sel m"
  unfolding querySelector_def query_nodes_Some_iff
  by (auto dest: query_node_sound)

lemma matches_is_element: "matches sel m \<Longrightarrow> \<exists>tg as cs. m = Element tg as cs"
  by (cases m) simp_all

lemma replace_in_total:
  "sub_at p n = Some (Element tg as cs) \<Longrightarrow>
     \<exists>n'. replace_in p new n = Some n' \<and> sub_at p n' = Some (Element tg as new)"
proof (induction p arbitrary: n)
  case Nil
  then show ?case by simp
next
  case (Cons k p)
  from Cons.prems obtain tg' as' cs' where n: "n = Element tg' as' cs'" "k < length cs'"
      "sub_at p (cs' ! k) = Some (Element tg as cs)"
    by (cases n) (auto split: if_splits)
  from Cons.IH [OF n(3)] obtain c' where "replace_in p new (cs' ! k) = Some c'"
      "sub_at p c' = Some (Element tg as new)" by blast
  with n(1,2) show ?case by simp
qed

lemma replace_children_total:
  "node_at p doc = Some (Element tg as cs) \<Longrightarrow>
     \<exists>doc'. replace_children p new doc = Some doc' \<and> node_at p doc' = Some (Element tg as new)"
proof (cases p)
  case Nil
  assume "node_at p doc = Some (Element tg as cs)"
  with Nil show ?thesis by simp
next
  case (Cons k q)
  assume "node_at p doc = Some (Element tg as cs)"
  with Cons have k: "k < length doc" "sub_at q (doc ! k) = Some (Element tg as cs)"
    by (auto split: if_splits)
  from replace_in_total [OF k(2), of new] obtain n' where
    "replace_in q new (doc ! k) = Some n'" "sub_at q n' = Some (Element tg as new)" by blast
  with Cons k(1) show ?thesis by simp
qed

lemma replace_in_idem:
  "replace_in p new n = Some n' \<Longrightarrow> replace_in p new n' = Some n'"
proof (induction p arbitrary: n n')
  case Nil
  then show ?case by (cases n) auto
next
  case (Cons k p)
  from Cons.prems obtain tg as cs c' where n: "n = Element tg as cs" "k < length cs"
      "replace_in p new (cs ! k) = Some c'" "n' = Element tg as (cs[k := c'])"
    by (cases n) (auto split: if_splits)
  from Cons.IH [OF n(3)] n(2,4) show ?case by simp
qed

lemma replace_children_idem:
  "replace_children p new doc = Some doc' \<Longrightarrow> replace_children p new doc' = Some doc'"
  by (cases p) (auto split: if_splits dest: replace_in_idem)

lemma matches_children:
  "matches sel (Element tg as cs) = matches sel (Element tg as cs')"
  by (cases sel) simp

lemma query_node_replace_in:
  "query_node sel n = Some p \<Longrightarrow> replace_in p new n = Some n' \<Longrightarrow> query_node sel n' = Some p"
proof (induction p arbitrary: n n')
  case Nil
  from Nil(1) have m: "matches sel n" by (simp add: query_node_Nil_iff)
  then obtain tg as cs where n: "n = Element tg as cs" by (cases n) auto
  with Nil(2) have "n' = Element tg as new" by simp
  with m n have "matches sel n'" using matches_children by blast
  then show ?case by (simp add: query_node_Nil_iff)
next
  case (Cons k p)
  from Cons.prems(1) obtain tg as cs where n: "n = Element tg as cs" "\<not> matches sel n"
      "k < length cs" "query_node sel (cs ! k) = Some p"
      "\<forall>j<k. query_node sel (cs ! j) = None"
    unfolding query_node_Cons_iff by blast
  from Cons.prems(2) n(1,3) obtain c' where c': "replace_in p new (cs ! k) = Some c'"
      "n' = Element tg as (cs[k := c'])" by auto
  have "query_node sel c' = Some p" by (rule Cons.IH [OF n(4) c'(1)])
  moreover have "\<not> matches sel n'" using n(1,2) c'(2) matches_children by blast
  ultimately show ?case
    unfolding query_node_Cons_iff using n(3,5) c'(2) by auto
qed

lemma querySelector_replace_children:
  assumes "querySelector sel doc = Some p" "replace_children p new doc = Some doc'"
  shows "querySelector sel doc' = Some p"
proof -
  from assms(1) obtain k q where kq: "p = k # q" "k < length doc"
      "query_node sel (doc ! k) = Some q" "\<forall>j<k. query_node sel (doc ! j) = None"
    unfolding querySelector_def query_nodes_Some_iff by blast
  from assms(2) kq(1,2) obtain n' where n': "replace_in q new (doc ! k) = Some n'"
      "doc' = doc[k := n']" by auto
  have "query_node sel n' = Some q" by (rule query_node_replace_in [OF kq(3) n'(1)])
  then show ?thesis
    unfolding querySelector_def query_nodes_Some_iff using kq(1,2,4) n'(2) by auto
qed


lemma replace_in_frame_own:
  "replace_in p new n = Some n' \<Longrightarrow> \<not> prefix p q \<Longrightarrow>
     map_option own_part (sub_at q n') = map_option own_part (sub_at q n)"
proof (induction p arbitrary: n n' q)
  case Nil
  then show ?case by simp
next
  case (Cons k p)
  from Cons.prems(1) obtain tg as cs c' where n: "n = Element tg as cs" "k < length cs"
      "replace_in p new (cs ! k) = Some c'" "n' = Element tg as (cs[k := c'])"
    by (cases n) (auto split: if_splits)
  show ?case
  proof (cases q)
    case Nil
    with n show ?thesis by simp
  next
    case (Cons j q')
    show ?thesis
    proof (cases "j = k")
      case True
      with Cons Cons.prems(2) have "\<not> prefix p q'" by simp
      from Cons.IH [OF n(3) this] True Cons n show ?thesis by simp
    next
      case False
      with Cons n show ?thesis by simp
    qed
  qed
qed

lemma replace_in_frame_disjoint:
  "replace_in p new n = Some n' \<Longrightarrow> \<not> prefix p q \<Longrightarrow> \<not> prefix q p \<Longrightarrow>
     sub_at q n' = sub_at q n"
proof (induction p arbitrary: n n' q)
  case Nil
  then show ?case by simp
next
  case (Cons k p)
  from Cons.prems(1) obtain tg as cs c' where n: "n = Element tg as cs" "k < length cs"
      "replace_in p new (cs ! k) = Some c'" "n' = Element tg as (cs[k := c'])"
    by (cases n) (auto split: if_splits)
  show ?case
  proof (cases q)
    case Nil
    with Cons.prems(3) show ?thesis by simp
  next
    case (Cons j q')
    show ?thesis
    proof (cases "j = k")
      case True
      with Cons Cons.prems(2,3) have "\<not> prefix p q'" "\<not> prefix q' p" by simp_all
      from Cons.IH [OF n(3) this] True Cons n show ?thesis by simp
    next
      case False
      with Cons n show ?thesis by simp
    qed
  qed
qed

lemma replace_children_frame_own:
  "replace_children p new doc = Some doc' \<Longrightarrow> \<not> prefix p q \<Longrightarrow>
     map_option own_part (node_at q doc') = map_option own_part (node_at q doc)"
proof (cases p; cases q)
  fix k p' j q'
  assume a: "replace_children p new doc = Some doc'" "\<not> prefix p q" "p = k # p'" "q = j # q'"
  then obtain n' where n': "k < length doc" "replace_in p' new (doc ! k) = Some n'"
      "doc' = doc[k := n']" by (auto split: if_splits)
  show ?thesis
  proof (cases "j = k")
    case True
    with a have "\<not> prefix p' q'" by simp
    from replace_in_frame_own [OF n'(2) this] True a(4) n'(1,3) show ?thesis by simp
  next
    case False
    with a(4) n'(3) show ?thesis by simp
  qed
qed simp_all

lemma replace_children_frame_disjoint:
  "replace_children p new doc = Some doc' \<Longrightarrow> \<not> prefix p q \<Longrightarrow> \<not> prefix q p \<Longrightarrow>
     node_at q doc' = node_at q doc"
proof (cases p; cases q)
  fix k p' j q'
  assume a: "replace_children p new doc = Some doc'" "\<not> prefix p q" "\<not> prefix q p"
     "p = k # p'" "q = j # q'"
  then obtain n' where n': "k < length doc" "replace_in p' new (doc ! k) = Some n'"
      "doc' = doc[k := n']" by (auto split: if_splits)
  show ?thesis
  proof (cases "j = k")
    case True
    with a have "\<not> prefix p' q'" "\<not> prefix q' p'" by simp_all
    from replace_in_frame_disjoint [OF n'(2) this] True a(5) n'(1,3) show ?thesis by simp
  next
    case False
    with a(5) n'(3) show ?thesis by simp
  qed
qed simp_all

lemma query_node_None_sub:
  "query_node sel n = None \<Longrightarrow> sub_at q n = Some m \<Longrightarrow> \<not> matches sel m"
proof (induction q arbitrary: n)
  case Nil
  then show ?case by (cases n) (auto split: if_splits)
next
  case (Cons j q)
  from Cons.prems(2) obtain tg as cs where n: "n = Element tg as cs" "j < length cs"
      "sub_at q (cs ! j) = Some m" by (cases n) (auto split: if_splits)
  from Cons.prems(1) n(1) have "query_nodes sel cs = None" by (auto split: if_splits)
  with n(2) have "query_node sel (cs ! j) = None" by (simp add: query_nodes_None_iff)
  from Cons.IH [OF this n(3)] show ?case .
qed

lemma query_node_first:
  "query_node sel n = Some p \<Longrightarrow> precedes q p \<Longrightarrow> sub_at q n = Some m \<Longrightarrow> \<not> matches sel m"
proof (induction p arbitrary: n q)
  case Nil
  then show ?case by (cases q) simp_all
next
  case (Cons k p)
  from Cons.prems(1) obtain tg as cs where n: "n = Element tg as cs" "\<not> matches sel n"
      "k < length cs" "query_node sel (cs ! k) = Some p"
      "\<forall>j<k. query_node sel (cs ! j) = None"
    unfolding query_node_Cons_iff by blast
  show ?case
  proof (cases q)
    case Nil
    with Cons.prems(3) n(2) show ?thesis by simp
  next
    case (Cons j q')
    with Cons.prems(3) n(1) have s: "j < length cs" "sub_at q' (cs ! j) = Some m"
      by (auto split: if_splits)
    from Cons Cons.prems(2) consider "j < k" | "j = k" "precedes q' p" by auto
    then show ?thesis
    proof cases
      case 1
      with n(5) have "query_node sel (cs ! j) = None" by blast
      from query_node_None_sub [OF this s(2)] show ?thesis .
    next
      case 2
      from Cons.IH [OF n(4) 2(2)] s(2) 2(1) show ?thesis by simp
    qed
  qed
qed

lemma querySelector_first:
  assumes "querySelector sel doc = Some p" "precedes q p" "node_at q doc = Some m"
  shows "\<not> matches sel m"
proof -
  from assms(1) obtain k p' where kp: "p = k # p'" "k < length doc"
      "query_node sel (doc ! k) = Some p'" "\<forall>j<k. query_node sel (doc ! j) = None"
    unfolding querySelector_def query_nodes_Some_iff by blast
  from assms(3) obtain j q' where jq: "q = j # q'" "j < length doc" "sub_at q' (doc ! j) = Some m"
    by (cases q) (auto split: if_splits)
  from assms(2) kp(1) jq(1) consider "j < k" | "j = k" "precedes q' p'" by auto
  then show ?thesis
  proof cases
    case 1
    with kp(4) have "query_node sel (doc ! j) = None" by blast
    from query_node_None_sub [OF this jq(3)] show ?thesis .
  next
    case 2
    from query_node_first [OF kp(3) 2(2)] jq(3) 2(1) show ?thesis by simp
  qed
qed

lemma query_None_iff_nodes:
  "query_node sel n = None \<longleftrightarrow> \<not> list_ex (matches sel) (nodes_of n)"
  "query_nodes sel ns = None \<longleftrightarrow> \<not> list_ex (matches sel) (nodes_of_list ns)"
  by (induction sel n and sel ns rule: query_node_query_nodes.induct)
     (auto split: option.splits)

lemma has_mount_iff: "has_mount doc \<longleftrightarrow> querySelector (Id_selector ''app'') doc \<noteq> None"
  unfolding has_mount_def querySelector_def by (simp add: query_None_iff_nodes)

text \<open>A document has a mount element exactly when some path leads to a node with id
  \<^verbatim>\<open>app\<close>.\<close>

lemma has_mount_paths:
  "has_mount doc \<longleftrightarrow> (\<exists>q m. node_at q doc = Some m \<and> node_id m = Some ''app'')"
proof
  assume "has_mount doc"
  then obtain p where "querySelector (Id_selector ''app'') doc = Some p"
    unfolding has_mount_iff by blast
  from querySelector_sound [OF this] show "\<exists>q m. node_at q doc = Some m \<and> node_id m = Some ''app''"
    by auto
next
  assume "\<exists>q m. node_at q doc = Some m \<and> node_id m = Some ''app''"
  then obtain q m where qm: "node_at q doc = Some m" "matches (Id_selector ''app'') m" by auto
  from qm(1) obtain j q' where j: "q = j # q'" "j < length doc" "sub_at q' (doc ! j) = Some m"
    by (cases q) (auto split: if_splits)
  show "has_mount doc"
  proof (rule ccontr)
    assume "\<not> has_mount doc"
    then have "query_nodes (Id_selector ''app'') doc = None"
      by (simp add: has_mount_iff querySelector_def)
    with j(2) have "query_node (Id_selector ''app'') (doc ! j) = None"
      by (simp add: query_nodes_None_iff)
    from query_node_None_sub [OF this j(3)] qm(2) show False by simp
  qed
qed

lemma sub_at_Element_eq: "p \<noteq> [] \<Longrightarrow> sub_at p (Element tg as cs) = node_at p cs"
  by (cases p) auto

lemma query_nodes_not_Nil: "query_nodes sel ns \<noteq> Some []"
  by (simp add: query_nodes_Some_iff)

lemma node_at_shift: "node_at (shift q) (n # ns) = node_at q ns"
  by (cases q) auto

lemma find_append_first:
  "find P (xs @ ys) = (case find P xs of None \<Rightarrow> find P ys | Some x \<Rightarrow> Some x)"
  by (induction xs) simp_all

lemma find_query:
  "find (matches sel) (nodes_of n) =
     (case query_node sel n of None \<Rightarrow> None | Some p \<Rightarrow> sub_at p n)"
  "find (matches sel) (nodes_of_list ns) =
     (case query_nodes sel ns of None \<Rightarrow> None | Some p \<Rightarrow> node_at p ns)"
proof (induction sel n and sel ns rule: query_node_query_nodes.induct)
  case (1 sel t)
  show ?case by simp
next
  case (2 sel tg as cs)
  show ?case
  proof (cases "matches sel (Element tg as cs)")
    case True
    then show ?thesis by simp
  next
    case False
    show ?thesis
    proof (cases "query_nodes sel cs")
      case None
      with False 2 show ?thesis by simp
    next
      case (Some p)
      with query_nodes_not_Nil [of sel cs] have "p \<noteq> []" by auto
      with False 2 Some show ?thesis by (simp add: sub_at_Element_eq)
    qed
  qed
next
  case (3 sel)
  show ?case by simp
next
  case (4 sel n ns)
  show ?case
  proof (cases "query_node sel n")
    case None
    with 4 show ?thesis
      by (cases "query_nodes sel ns") (simp_all add: find_append_first node_at_shift)
  next
    case (Some p)
    from query_node_sound [OF Some] obtain m where "sub_at p n = Some m" by blast
    with 4 Some show ?thesis by (simp add: find_append_first)
  qed
qed

lemma mount_querySelector:
  "mount doc =
     (case querySelector (Id_selector ''app'') doc of None \<Rightarrow> None | Some p \<Rightarrow> node_at p doc)"
  by (simp add: mount_def querySelector_def find_query)

lemma innerHTML_nodes_idem:
  "innerHTML_nodes (Element tg as (innerHTML_nodes (Element tg as cs) s)) s =
     innerHTML_nodes (Element tg as cs) s"
  by (simp split: parsing_context.splits)

lemma innerHTML_nodes_div:
  "innerHTML_nodes (Element ''div'' as cs) template = template_nodes"
  by (simp add: fragment_context_def parse_template)

section \<open>What the entry point does\<close>

lemma main_no_mount:
  "querySelector (Id_selector ''app'') doc = None \<Longrightarrow> main doc = Inr doc"
  by (simp add: main_def)

lemma main_mount:
  assumes "querySelector (Id_selector ''app'') doc = Some p"
  shows "\<exists>doc' tg as cs.
           node_at p doc = Some (Element tg as cs) \<and> map_of as ''id'' = Some ''app'' \<and>
           replace_children p (innerHTML_nodes (Element tg as cs) template) doc = Some doc' \<and>
           main doc = Inr doc' \<and>
           node_at p doc' = Some (Element tg as (innerHTML_nodes (Element tg as cs) template))"
proof -
  from querySelector_sound [OF assms] obtain m where
    m: "node_at p doc = Some m" "matches (Id_selector ''app'') m" by blast
  from matches_is_element [OF m(2)] obtain tg as cs where e: "m = Element tg as cs" by blast
  from m(2) e have i: "map_of as ''id'' = Some ''app''" by simp
  define new where "new = innerHTML_nodes (Element tg as cs) template"
  from replace_children_total [of p doc tg as cs new] m(1) e obtain doc' where
    d: "replace_children p new doc = Some doc'"
       "node_at p doc' = Some (Element tg as new)" by blast
  from assms m(1) e d(1) have "main doc = Inr doc'"
    unfolding new_def by (simp add: main_def)
  with m(1) e i d show ?thesis unfolding new_def by blast
qed

lemma main_total: "\<exists>doc'. main doc = Inr doc'"
proof (cases "querySelector (Id_selector ''app'') doc")
  case None
  then show ?thesis by (blast dest: main_no_mount)
next
  case (Some p)
  from main_mount [OF this] show ?thesis by blast
qed

lemma main_replaces:
  "querySelector (Id_selector ''app'') doc = Some p \<Longrightarrow> main doc = Inr doc' \<Longrightarrow>
     \<exists>new. replace_children p new doc = Some doc'"
proof -
  assume q: "querySelector (Id_selector ''app'') doc = Some p" and m: "main doc = Inr doc'"
  from main_mount [OF q] obtain d new where
    "replace_children p new doc = Some d" "main doc = Inr d" by blast
  with m show ?thesis by auto
qed

lemma main_div:
  assumes "querySelector (Id_selector ''app'') doc = Some p"
    and "node_at p doc = Some (Element ''div'' as old)"
  shows "\<exists>doc'. main doc = Inr doc' \<and>
                 replace_children p template_nodes doc = Some doc' \<and>
                 node_at p doc' = Some (Element ''div'' as template_nodes)"
proof -
  from main_mount [OF assms(1)] obtain doc' tg as' cs where
    d: "node_at p doc = Some (Element tg as' cs)"
       "replace_children p (innerHTML_nodes (Element tg as' cs) template) doc = Some doc'"
       "main doc = Inr doc'"
       "node_at p doc' = Some (Element tg as' (innerHTML_nodes (Element tg as' cs) template))"
    by blast
  from d(1) assms(2) have e: "tg = ''div''" "as' = as" "cs = old" by simp_all
  from d(2,3,4) show ?thesis unfolding e innerHTML_nodes_div by blast
qed

lemma h1_in_template: "Element ''h1'' [] [Text ''Poland in Numbers''] \<in> set (nodes_of_list template_nodes)"
  by (simp add: template_nodes_def)

lemma div_in_template: "Element ''div'' [(''id'', ''visualizations'')] [] \<in> set (nodes_of_list template_nodes)"
  by (simp add: template_nodes_def)

lemma template_not_empty: "template \<noteq> []"
  by (simp add: template_def)

text \<open>
  Claim C1, as written, for every document with a mount element. It fails where the first
  element with id \<^verbatim>\<open>app\<close> is a \<^verbatim>\<open>textarea\<close>: the template arrives there as one
  text node, and the mount holds no element at all afterwards, so no container element.
\<close>

theorem textarea_mount_gets_no_container:
  "has_mount [Element ''textarea'' [(''id'', ''app'')] []] \<and>
   main [Element ''textarea'' [(''id'', ''app'')] []]
     = Inr [Element ''textarea'' [(''id'', ''app'')] [Text template]] \<and>
   \<not> list_ex is_element (nodes_of_list [Text template]) \<and>
   Element ''div'' [(''id'', ''visualizations'')] [] \<notin> set (nodes_of_list [Text template])"
  by (simp add: has_mount_def main_def querySelector_def fragment_context_def
        text_only_tags_def template_not_empty)

text \<open>
  Claim C1, amended. For every document whose mount element, the first element with id
  \<^verbatim>\<open>app\<close>, is a \<^verbatim>\<open>div\<close>, as the source declares it, the entry point succeeds, and
  afterwards the mount element holds the heading element with the text
  \<^verbatim>\<open>Poland in Numbers\<close> and the visualization container, a \<^verbatim>\<open>div\<close> with id
  \<^verbatim>\<open>visualizations\<close> and no children.
\<close>

theorem div_mount_gets_header_and_container:
  assumes "mount doc = Some (Element ''div'' as old)"
  shows "\<exists>p doc' cs.
           querySelector (Id_selector ''app'') doc = Some p \<and>
           node_at p doc = Some (Element ''div'' as old) \<and>
           map_of as ''id'' = Some ''app'' \<and>
           main doc = Inr doc' \<and>
           node_at p doc' = Some (Element ''div'' as cs) \<and>
           Element ''h1'' [] [Text ''Poland in Numbers''] \<in> set (nodes_of_list cs) \<and>
           Element ''div'' [(''id'', ''visualizations'')] [] \<in> set (nodes_of_list cs)"
proof -
  from assms obtain p where p: "querySelector (Id_selector ''app'') doc = Some p"
      "node_at p doc = Some (Element ''div'' as old)"
    unfolding mount_querySelector by (auto split: option.splits)
  from main_mount [OF p(1)] p(2) have i: "map_of as ''id'' = Some ''app''" by auto
  from main_div [OF p] obtain doc' where
    "main doc = Inr doc'" "node_at p doc' = Some (Element ''div'' as template_nodes)" by blast
  with p i h1_in_template div_in_template show ?thesis by blast
qed

theorem div_mount_gets_header_and_container_witness:
  "mount [Element ''div'' [(''id'', ''app'')] [Text ''Loading'']]
     = Some (Element ''div'' [(''id'', ''app'')] [Text ''Loading'']) \<and>
   (\<exists>doc' cs.
      main [Element ''div'' [(''id'', ''app'')] [Text ''Loading'']] = Inr doc' \<and>
      node_at [0] doc' = Some (Element ''div'' [(''id'', ''app'')] cs) \<and>
      Element ''h1'' [] [Text ''Poland in Numbers''] \<in> set (nodes_of_list cs) \<and>
      Element ''div'' [(''id'', ''visualizations'')] [] \<in> set (nodes_of_list cs))"
proof -
  have h: "mount [Element ''div'' [(''id'', ''app'')] [Text ''Loading'']]
     = Some (Element ''div'' [(''id'', ''app'')] [Text ''Loading''])"
    by (simp add: mount_def)
  have q: "querySelector (Id_selector ''app'') [Element ''div'' [(''id'', ''app'')] [Text ''Loading'']] = Some [0]"
    by (simp add: querySelector_def)
  from div_mount_gets_header_and_container [OF h] obtain p doc' cs where
    r: "querySelector (Id_selector ''app'') [Element ''div'' [(''id'', ''app'')] [Text ''Loading'']] = Some p"
       "main [Element ''div'' [(''id'', ''app'')] [Text ''Loading'']] = Inr doc'"
       "node_at p doc' = Some (Element ''div'' [(''id'', ''app'')] cs)"
       "Element ''h1'' [] [Text ''Poland in Numbers''] \<in> set (nodes_of_list cs)"
       "Element ''div'' [(''id'', ''visualizations'')] [] \<in> set (nodes_of_list cs)"
    by blast
  from r(1) q have "p = [0]" by simp
  with r h show ?thesis by blast
qed

text \<open>
  Claim C2. For every document without a mount element the entry point completes without
  an error and returns the document as it was.
\<close>

theorem no_mount_no_change:
  "\<not> has_mount doc \<Longrightarrow> main doc = Inr doc"
  by (simp add: has_mount_iff main_no_mount)

theorem no_mount_no_change_witness:
  "\<not> has_mount [Element ''div'' [(''id'', ''root'')] [Text ''x'']] \<and>
   main [Element ''div'' [(''id'', ''root'')] [Text ''x'']] = Inr [Element ''div'' [(''id'', ''root'')] [Text ''x'']]"
proof -
  have h: "\<not> has_mount [Element ''div'' [(''id'', ''root'')] [Text ''x'']]"
    by (simp add: has_mount_def)
  from no_mount_no_change [OF h] h show ?thesis by blast
qed

text \<open>
  Claim C3, as written, for whatever element the mount is. It fails where the mount is a
  \<^verbatim>\<open>textarea\<close>: its old content is replaced, but by one text node holding the
  template's characters, not by the header and the container.
\<close>

theorem textarea_mount_content_is_text:
  "querySelector (Id_selector ''app'')
     [Element ''textarea'' [(''id'', ''app'')] [Text ''old'']] = Some [0] \<and>
   main [Element ''textarea'' [(''id'', ''app'')] [Text ''old'']]
     = Inr [Element ''textarea'' [(''id'', ''app'')] [Text template]] \<and>
   [Text template] \<noteq> parse_fragment template"
  by (simp add: main_def querySelector_def fragment_context_def text_only_tags_def
        template_not_empty parse_template template_nodes_def)

text \<open>
  Claim C3, amended. Where the mount element is a \<^verbatim>\<open>div\<close>, as the source declares
  it: whatever it contained before, after the entry point has run its children are exactly
  the nodes the fixed template parses to, the header and the container written out below;
  its tag and attributes stay.
\<close>

theorem div_mount_content_replaced:
  assumes "querySelector (Id_selector ''app'') doc = Some p"
    and "node_at p doc = Some (Element ''div'' as old)"
  shows "\<exists>doc'. main doc = Inr doc' \<and>
           node_at p doc' = Some (Element ''div'' as (parse_fragment template)) \<and>
           parse_fragment template =
             [Text ''\<newline>    '',
              Element ''header'' []
                [Text ''\<newline>      '',
                 Element ''h1'' [] [Text ''Poland in Numbers''],
                 Text ''\<newline>      '',
                 Element ''p'' [] [Text ''D3.js Data Visualization App''],
                 Text ''\<newline>    ''],
              Text ''\<newline>    '',
              Element ''main'' []
                [Text ''\<newline>      '',
                 Element ''div'' [(''id'', ''visualizations'')] [],
                 Text ''\<newline>    ''],
              Text ''\<newline>  '']"
proof -
  from main_div [OF assms] obtain doc' where
    "main doc = Inr doc'" "node_at p doc' = Some (Element ''div'' as template_nodes)" by blast
  moreover have "parse_fragment template = template_nodes" by (rule parse_template)
  ultimately show ?thesis unfolding template_nodes_def by simp
qed

theorem div_mount_content_replaced_witness:
  "querySelector (Id_selector ''app'')
     [Text ''a'', Element ''div'' [(''id'', ''app'')] [Element ''p'' [] [Text ''old'']]] = Some [1] \<and>
   (\<exists>doc'. main [Text ''a'', Element ''div'' [(''id'', ''app'')] [Element ''p'' [] [Text ''old'']]] = Inr doc' \<and>
      node_at [1] doc' = Some (Element ''div'' [(''id'', ''app'')] (parse_fragment template)))"
proof -
  have q: "querySelector (Id_selector ''app'')
     [Text ''a'', Element ''div'' [(''id'', ''app'')] [Element ''p'' [] [Text ''old'']]] = Some [1]"
    by (simp add: querySelector_def)
  have n: "node_at [1] [Text ''a'', Element ''div'' [(''id'', ''app'')] [Element ''p'' [] [Text ''old'']]]
     = Some (Element ''div'' [(''id'', ''app'')] [Element ''p'' [] [Text ''old'']])"
    by simp
  from div_mount_content_replaced [OF q n] q show ?thesis by blast
qed

text \<open>
  Claim C4. The entry point is idempotent: on every document it succeeds, and running it
  again on its result returns that result unchanged.
\<close>

theorem main_idempotent:
  "\<exists>doc'. main doc = Inr doc' \<and> main doc' = Inr doc'"
proof (cases "querySelector (Id_selector ''app'') doc")
  case None
  then show ?thesis by (simp add: main_no_mount)
next
  case (Some p)
  from main_mount [OF Some] obtain doc' tg as cs where
    d: "replace_children p (innerHTML_nodes (Element tg as cs) template) doc = Some doc'"
       "main doc = Inr doc'"
       "node_at p doc' = Some (Element tg as (innerHTML_nodes (Element tg as cs) template))"
    by blast
  have q: "querySelector (Id_selector ''app'') doc' = Some p"
    by (rule querySelector_replace_children [OF Some d(1)])
  have "replace_children p (innerHTML_nodes (Element tg as cs) template) doc' = Some doc'"
    by (rule replace_children_idem [OF d(1)])
  with q d(3) have "main doc' = Inr doc'"
    by (simp add: main_def innerHTML_nodes_idem del: innerHTML_nodes.simps)
  with d(2) show ?thesis by blast
qed

text \<open>
  Claim C5. On every document, with or without a mount element, the entry point returns a
  document and never an error: the \<^verbatim>\<open>TypeError\<close> of an assignment through
  \<^verbatim>\<open>null\<close> is excluded by the guard, and the reference the query returns always leads
  to an element.
\<close>

theorem main_never_raises:
  "(\<forall>e. main doc \<noteq> Inl e) \<and> (\<exists>doc'. main doc = Inr doc')"
  using main_total [of doc] by auto

lemma strict_prefix_precedes: "strict_prefix q p \<Longrightarrow> precedes q p"
proof (induction q p rule: precedes.induct)
  case 1 then show ?case by simp
next
  case (2 j q) then show ?case by simp
next
  case (3 k p) then show ?case by simp
next
  case (4 k p j q) then show ?case by auto
qed

text \<open>
  Claim C6. The entry point writes to the mount element only. For every document and every
  path that is not at or below the mount element, the node there is by itself the same
  before and after (same tag and attributes, or same text; present after exactly when
  present before). When the path is not an ancestor of the mount element either, the whole
  subtree there is unchanged. Without a mount element this covers every path.
\<close>

theorem only_mount_written:
  assumes "main doc = Inr doc'" and "\<not> in_mount doc q"
  shows "map_option own_part (node_at q doc') = map_option own_part (node_at q doc) \<and>
         (\<not> around_mount doc q \<longrightarrow> node_at q doc' = node_at q doc)"
proof (cases "querySelector (Id_selector ''app'') doc")
  case None
  with assms(1) have "doc' = doc" by (simp add: main_no_mount)
  then show ?thesis by simp
next
  case (Some p)
  from main_replaces [OF Some assms(1)] obtain new where
    r: "replace_children p new doc = Some doc'" by blast
  from assms(2) Some have np: "\<not> prefix p q" by (simp add: in_mount_def)
  have "map_option own_part (node_at q doc') = map_option own_part (node_at q doc)"
    by (rule replace_children_frame_own [OF r np])
  moreover have "node_at q doc' = node_at q doc" if "\<not> around_mount doc q"
  proof -
    from that Some have "\<not> prefix q p" by (simp add: around_mount_def)
    from replace_children_frame_disjoint [OF r np this] show ?thesis .
  qed
  ultimately show ?thesis by blast
qed

theorem only_mount_written_witness:
  "main [Element ''nav'' [] [Text ''menu''],
         Element ''section'' [] [Element ''div'' [(''id'', ''app'')] [Text ''old'']]]
     = Inr [Element ''nav'' [] [Text ''menu''],
            Element ''section'' [] [Element ''div'' [(''id'', ''app'')] template_nodes]] \<and>
   \<not> in_mount [Element ''nav'' [] [Text ''menu''],
         Element ''section'' [] [Element ''div'' [(''id'', ''app'')] [Text ''old'']]] [0] \<and>
   \<not> around_mount [Element ''nav'' [] [Text ''menu''],
         Element ''section'' [] [Element ''div'' [(''id'', ''app'')] [Text ''old'']]] [0] \<and>
   node_at [0] [Element ''nav'' [] [Text ''menu''],
            Element ''section'' [] [Element ''div'' [(''id'', ''app'')] template_nodes]]
     = node_at [0] [Element ''nav'' [] [Text ''menu''],
         Element ''section'' [] [Element ''div'' [(''id'', ''app'')] [Text ''old'']]]"
proof -
  let ?d = "[Element ''nav'' [] [Text ''menu''],
         Element ''section'' [] [Element ''div'' [(''id'', ''app'')] [Text ''old'']]]"
  let ?d' = "[Element ''nav'' [] [Text ''menu''],
            Element ''section'' [] [Element ''div'' [(''id'', ''app'')] template_nodes]]"
  have q: "querySelector (Id_selector ''app'') ?d = Some [1, 0]"
    by (simp add: querySelector_def)
  have m: "main ?d = Inr ?d'"
    by (simp add: main_def q fragment_context_def parse_template)
  have i: "\<not> in_mount ?d [0]" by (simp add: in_mount_def q)
  have a: "\<not> around_mount ?d [0]" by (simp add: around_mount_def q)
  from only_mount_written [OF m i] a have "node_at [0] ?d' = node_at [0] ?d" by blast
  with m i a show ?thesis by blast
qed

text \<open>
  Claim C8. The configuration declares the test environment \<^verbatim>\<open>jsdom\<close>, the DOM
  emulation, and sets each of the four coverage thresholds (lines, functions, branches,
  statements) to exactly 80.
\<close>

theorem config_environment_and_thresholds:
  "environment (test vite_config) = ''jsdom'' \<and>
   lines (thresholds (coverage (test vite_config))) = 80 \<and>
   functions_cov (thresholds (coverage (test vite_config))) = 80 \<and>
   branches (thresholds (coverage (test vite_config))) = 80 \<and>
   statements (thresholds (coverage (test vite_config))) = 80"
  by (simp add: vite_config_def defineConfig_def)

lemma mount_content_unchanged_own:
  assumes "querySelector (Id_selector ''app'') doc = Some p" and "main doc = Inr doc'"
  shows "map_option own_part (node_at p doc') = map_option own_part (node_at p doc)"
proof -
  from main_mount [OF assms(1)] assms(2) show ?thesis by auto
qed

text \<open>
  Claim C9. The mount element is the element the selector \<^verbatim>\<open>#app\<close> finds: an
  element whose id is \<^verbatim>\<open>app\<close>, and the first such in document order, no node before
  it having that id. It alone is written to: the document after the run is the document
  before with the children of that one element replaced by what the assignment of the
  template gives there (in a \<^verbatim>\<open>div\<close>, the parsed template), and every other node with
  id \<^verbatim>\<open>app\<close> that is not inside it is afterwards exactly as before. (One inside it
  goes away with the old content.)
\<close>

theorem first_app_element_selected:
  assumes "querySelector (Id_selector ''app'') doc = Some p"
  shows "(\<exists>tg as cs. node_at p doc = Some (Element tg as cs) \<and> map_of as ''id'' = Some ''app'') \<and>
         (\<forall>q m. precedes q p \<and> node_at q doc = Some m \<longrightarrow> node_id m \<noteq> Some ''app'') \<and>
         (\<exists>doc' n. main doc = Inr doc' \<and>
            node_at p doc = Some n \<and>
            replace_children p (innerHTML_nodes n template) doc = Some doc' \<and>
            (\<forall>as cs. n = Element ''div'' as cs
                 \<longrightarrow> node_at p doc' = Some (Element ''div'' as template_nodes)) \<and>
            (\<forall>q m. node_at q doc = Some m \<and> node_id m = Some ''app'' \<and> \<not> prefix p q
                 \<longrightarrow> node_at q doc' = Some m))"
proof -
  from main_mount [OF assms] obtain doc' tg as cs where
    d: "node_at p doc = Some (Element tg as cs)" "map_of as ''id'' = Some ''app''"
       "replace_children p (innerHTML_nodes (Element tg as cs) template) doc = Some doc'"
       "main doc = Inr doc'"
       "node_at p doc' = Some (Element tg as (innerHTML_nodes (Element tg as cs) template))"
    by blast
  have first: "node_id m \<noteq> Some ''app''" if "precedes q p" "node_at q doc = Some m" for q m
    using querySelector_first [OF assms that] by simp
  have other: "node_at q doc' = Some m"
    if "node_at q doc = Some m" "node_id m = Some ''app''" "\<not> prefix p q" for q m
  proof -
    have "\<not> prefix q p"
    proof
      assume pq: "prefix q p"
      with that(3) have "q \<noteq> p" by auto
      with pq have "strict_prefix q p" by (simp add: strict_prefix_def)
      then have "precedes q p" by (rule strict_prefix_precedes)
      from first [OF this that(1)] that(2) show False by simp
    qed
    from replace_children_frame_disjoint [OF d(3) that(3) this] that(1) show ?thesis by simp
  qed
  have written: "node_at p doc' = Some (Element ''div'' as' template_nodes)"
    if "Element tg as cs = Element ''div'' as' cs'" for as' cs'
    using that d(5) by (simp add: fragment_context_def parse_template)
  from d(1,2) have c1: "\<exists>tg as cs. node_at p doc = Some (Element tg as cs) \<and> map_of as ''id'' = Some ''app''"
    by blast
  from first have c2: "\<forall>q m. precedes q p \<and> node_at q doc = Some m \<longrightarrow> node_id m \<noteq> Some ''app''"
    by blast
  from d(1,3,4) written other
  have c3: "\<exists>doc' n. main doc = Inr doc' \<and>
            node_at p doc = Some n \<and>
            replace_children p (innerHTML_nodes n template) doc = Some doc' \<and>
            (\<forall>as cs. n = Element ''div'' as cs
                 \<longrightarrow> node_at p doc' = Some (Element ''div'' as template_nodes)) \<and>
            (\<forall>q m. node_at q doc = Some m \<and> node_id m = Some ''app'' \<and> \<not> prefix p q
                 \<longrightarrow> node_at q doc' = Some m)"
    by blast
  from c1 c2 c3 show ?thesis by blast
qed

theorem first_app_element_selected_witness:
  "querySelector (Id_selector ''app'')
     [Element ''div'' [(''id'', ''app'')] [Text ''first''],
      Element ''div'' [(''id'', ''app'')] [Text ''second'']] = Some [0] \<and>
   (\<exists>doc'. main [Element ''div'' [(''id'', ''app'')] [Text ''first''],
                   Element ''div'' [(''id'', ''app'')] [Text ''second'']] = Inr doc' \<and>
      node_at [0] doc' = Some (Element ''div'' [(''id'', ''app'')] template_nodes) \<and>
      node_at [1] doc' = Some (Element ''div'' [(''id'', ''app'')] [Text ''second'']))"
proof -
  let ?d = "[Element ''div'' [(''id'', ''app'')] [Text ''first''],
             Element ''div'' [(''id'', ''app'')] [Text ''second'']]"
  have q: "querySelector (Id_selector ''app'') ?d = Some [0]"
    by (simp add: querySelector_def)
  have n0: "node_at [0] ?d = Some (Element ''div'' [(''id'', ''app'')] [Text ''first''])"
    by simp
  have n1: "node_at [1] ?d = Some (Element ''div'' [(''id'', ''app'')] [Text ''second''])"
    by simp
  have i1: "node_id (Element ''div'' [(''id'', ''app'')] [Text ''second'']) = Some ''app''"
    by simp
  have np: "\<not> prefix [0::nat] [1]" by simp
  from first_app_element_selected [OF q] obtain doc' n where
    r: "main ?d = Inr doc'" "node_at [0] ?d = Some n"
       "\<forall>as cs. n = Element ''div'' as cs
            \<longrightarrow> node_at [0] doc' = Some (Element ''div'' as template_nodes)"
       "\<forall>q m. node_at q ?d = Some m \<and> node_id m = Some ''app'' \<and> \<not> prefix [0] q
              \<longrightarrow> node_at q doc' = Some m"
    by blast
  from r(2) n0 have "n = Element ''div'' [(''id'', ''app'')] [Text ''first'']" by simp
  with r(3) have w: "node_at [0] doc' = Some (Element ''div'' [(''id'', ''app'')] template_nodes)"
    by blast
  from r(4) n1 i1 np
  have s: "node_at [1] doc' = Some (Element ''div'' [(''id'', ''app'')] [Text ''second''])"
    by blast
  from q r(1) w s show ?thesis by blast
qed

text \<open>
  Claim C10. The template parses to the tree \<open>template_nodes\<close>. Its element children
  are a \<^verbatim>\<open>header\<close> followed by a \<^verbatim>\<open>main\<close>; the header's element children are
  an \<^verbatim>\<open>h1\<close> with the text \<^verbatim>\<open>Poland in Numbers\<close> and a \<^verbatim>\<open>p\<close> with the text
  \<^verbatim>\<open>D3.js Data Visualization App\<close>; the only element child of \<^verbatim>\<open>main\<close> is a
  \<^verbatim>\<open>div\<close> with id \<^verbatim>\<open>visualizations\<close> and no children at all. The remaining
  nodes are the white-space text nodes of the template's line breaks and indentation.
\<close>

theorem template_structure:
  "parse_fragment template = template_nodes \<and>
   map own_part (children (parse_fragment template)) =
     [Element ''header'' [] [], Element ''main'' [] []] \<and>
   map (\<lambda>n. children (childNodes n)) (children (parse_fragment template)) =
     [[Element ''h1'' [] [Text ''Poland in Numbers''],
       Element ''p'' [] [Text ''D3.js Data Visualization App'']],
      [Element ''div'' [(''id'', ''visualizations'')] []]]"
  by (simp add: parse_template template_nodes_def children_def)

end
